theory Spec2Isabelle
  imports Complex_Main
begin

section \<open>The listener: binance\_listener.cpp\<close>

subsection \<open>The platform's double arithmetic\<close>

text \<open>
  The listener compares prices as C++ \<^verbatim>\<open>double\<close>s. Binary floating point is not
  a HOL type, so the operations the code applies to doubles are taken as a parameter:
  a record holding \<^verbatim>\<open>std::stod\<close> (\<open>None\<close> when it throws), the literal
  \<^verbatim>\<open>0.0\<close>, \<^verbatim>\<open>operator==\<close>, \<^verbatim>\<open>operator-\<close>, \<^verbatim>\<open>std::abs\<close>,
  \<^verbatim>\<open>operator>=\<close> and the constant \<^verbatim>\<open>MINIMUM_TICK_SIZE\<close> (the double written
  \<^verbatim>\<open>0.2\<close>). Every general theorem below holds for every such record, hence for
  IEEE binary64 with its rounding, signed zeros and NaN.
\<close>

record 'd double_ops =
  stod :: "string \<Rightarrow> 'd option"
  d_zero :: "'d"
  d_eq :: "'d \<Rightarrow> 'd \<Rightarrow> bool"
  d_sub :: "'d \<Rightarrow> 'd \<Rightarrow> 'd"
  d_abs :: "'d \<Rightarrow> 'd"
  d_ge :: "'d \<Rightarrow> 'd \<Rightarrow> bool"
  MINIMUM_TICK_SIZE :: "'d"

definition RECONNECT_INTERVAL_MS :: nat where
  "RECONNECT_INTERVAL_MS = 3000"

subsection \<open>ThreadSafeQueue\<close>

text \<open>
  \<^verbatim>\<open>std::queue<T> m_queue\<close> is a list whose head is the front. Both member functions
  hold \<^verbatim>\<open>m_mutex\<close> for their whole body, so each call is one atomic step on the
  queue. \<^verbatim>\<open>pop\<close> reads the process-wide flag \<^verbatim>\<open>g_running\<close>, which is passed in.
  When the wait predicate \<^verbatim>\<open>!m_queue.empty() || !g_running\<close> is false the caller
  sleeps on the condition variable: the result \<open>Blocked\<close>, with the queue untouched
  (the empty-queue branch of the final \<open>case\<close> is never reached).
  \<open>Closed\<close> is the return value \<^verbatim>\<open>false\<close>, \<open>Popped v\<close> the return value
  \<^verbatim>\<open>true\<close> with \<open>v\<close> stored through the reference parameter.
\<close>

datatype 'a pop_result = Popped 'a | Closed | Blocked

definition push :: "'a \<Rightarrow> 'a list \<Rightarrow> 'a list" where
  "push v m_queue = m_queue @ [v]"

definition pop :: "bool \<Rightarrow> 'a list \<Rightarrow> 'a pop_result \<times> 'a list" where
  "pop g_running m_queue =
     (if \<not> (m_queue \<noteq> [] \<or> \<not> g_running) then (Blocked, m_queue)
      else if \<not> g_running then (Closed, m_queue)
      else (case m_queue of
              [] \<Rightarrow> (Blocked, m_queue)
            | front # rest \<Rightarrow> (Popped front, rest)))"

text \<open>
  A history of calls on one queue, in the order in which they took the mutex. Any number
  of producer threads push (the thread is named in the call), one consumer pops.
  \<open>run_calls\<close> returns the final queue and the items the consumer's calls returned, in
  order.
\<close>

datatype 'a queue_call = Push nat 'a | Pop

fun run_calls :: "bool \<Rightarrow> 'a queue_call list \<Rightarrow> 'a list \<Rightarrow> 'a list \<Rightarrow> 'a list \<times> 'a list" where
  "run_calls g_running [] m_queue got = (m_queue, got)"
| "run_calls g_running (Push producer v # calls) m_queue got =
     run_calls g_running calls (push v m_queue) got"
| "run_calls g_running (Pop # calls) m_queue got =
     (case pop g_running m_queue of
        (Popped v, m_queue') \<Rightarrow> run_calls g_running calls m_queue' (got @ [v])
      | (_, m_queue') \<Rightarrow> run_calls g_running calls m_queue' got)"

fun pushed :: "'a queue_call list \<Rightarrow> 'a list" where
  "pushed [] = []"
| "pushed (Push producer v # calls) = v # pushed calls"
| "pushed (Pop # calls) = pushed calls"

subsection \<open>The upstream message handler\<close>

text \<open>
  simdjson is an external library: a frame is modelled by what the parser makes of it,
  \<open>Malformed\<close> when \<^verbatim>\<open>parser.iterate\<close> or a later access throws on the text as a
  whole, otherwise the top-level object as a list of fields. Converting a field to
  \<^verbatim>\<open>std::string_view\<close> gives the characters between the quotes of a JSON string and
  throws for a missing field or a value of another type (\<open>None\<close>).
\<close>

datatype jvalue = JString string | JOther

datatype frame = Malformed | Doc "(string \<times> jvalue) list"

definition string_view :: "(string \<times> jvalue) list \<Rightarrow> string \<Rightarrow> string option" where
  "string_view doc key =
     (case map_of doc key of
        Some (JString s) \<Rightarrow> Some s
      | _ \<Rightarrow> None)"

record 'd listener =
  g_last_sent_trade_price :: "'d"
  message_queue :: "string list"

text \<open>
  Lines 169 to 183: the significance filter on doubles. The result is the new value of
  \<^verbatim>\<open>g_last_sent_trade_price\<close> and whether a payload is pushed.
\<close>

definition observe :: "'d double_ops \<Rightarrow> 'd \<Rightarrow> 'd \<Rightarrow> 'd \<times> bool" where
  "observe A current_trade_price last_price =
     (if d_eq A last_price (d_zero A) then (current_trade_price, False)
      else
        let price_difference = d_sub A current_trade_price last_price in
        if d_ge A (d_abs A price_difference) (MINIMUM_TICK_SIZE A)
        then (current_trade_price, True)
        else (last_price, False))"

definition payload_of :: "string \<Rightarrow> string" where
  \<open>payload_of price_sv = ''{"type":"S","p":'' @ price_sv @ ''}''\<close>

text \<open>
  The lambda \<^verbatim>\<open>on_binance_message\<close>. Every exception (simdjson's, \<^verbatim>\<open>std::stod\<close>'s)
  is caught by the handler's \<^verbatim>\<open>catch\<close>, which does nothing: the state is returned as
  it was. Where the source stores nothing, \<open>observe\<close> returns the old price, and
  storing it changes nothing.
\<close>

definition on_binance_message :: "'d double_ops \<Rightarrow> frame \<Rightarrow> 'd listener \<Rightarrow> 'd listener" where
  "on_binance_message A msg st =
     (case msg of
        Malformed \<Rightarrow> st
      | Doc doc \<Rightarrow>
          (case string_view doc ''e'' of
             None \<Rightarrow> st
           | Some e \<Rightarrow>
               if e = ''trade'' then
                 (case string_view doc ''p'' of
                    None \<Rightarrow> st
                  | Some price_sv \<Rightarrow>
                      (case stod A price_sv of
                         None \<Rightarrow> st
                       | Some current_trade_price \<Rightarrow>
                           (case observe A current_trade_price (g_last_sent_trade_price st) of
                              (new_last, True) \<Rightarrow>
                                st\<lparr>message_queue := push (payload_of price_sv) (message_queue st),
                                   g_last_sent_trade_price := new_last\<rparr>
                            | (new_last, False) \<Rightarrow>
                                st\<lparr>g_last_sent_trade_price := new_last\<rparr>)))
               else st))"

text \<open>
  The filter over a sequence of observed prices: \<open>filter_state\<close> is the stored price
  after the whole sequence, \<open>emissions\<close> says for each observation whether it emitted.
\<close>

fun filter_state :: "'d double_ops \<Rightarrow> 'd \<Rightarrow> 'd list \<Rightarrow> 'd" where
  "filter_state A last_price [] = last_price"
| "filter_state A last_price (p # ps) = filter_state A (fst (observe A p last_price)) ps"

fun emissions :: "'d double_ops \<Rightarrow> 'd \<Rightarrow> 'd list \<Rightarrow> bool list" where
  "emissions A last_price [] = []"
| "emissions A last_price (p # ps) =
     snd (observe A p last_price) # emissions A (fst (observe A p last_price)) ps"

definition significant :: "'d double_ops \<Rightarrow> 'd \<Rightarrow> 'd \<Rightarrow> bool" where
  "significant A price last_emitted =
     d_ge A (d_abs A (d_sub A price last_emitted)) (MINIMUM_TICK_SIZE A)"

subsection \<open>A reference instance of the arithmetic\<close>

text \<open>
  For evaluation at concrete inputs: exact decimal arithmetic on the reals.
  \<open>stod_decimal\<close> reads an optional minus sign, digits and an optional fraction, ignores
  what follows (as \<^verbatim>\<open>std::stod\<close> does), and fails when there is no digit. It agrees
  with binary64 on the inputs used below: their differences are far from the threshold
  and from zero.
\<close>

definition digit_of :: "char \<Rightarrow> nat option" where
  "digit_of = map_of (zip ''0123456789'' [0, 1, 2, 3, 4, 5, 6, 7, 8, 9])"

fun take_digits :: "string \<Rightarrow> nat list \<times> string" where
  "take_digits [] = ([], [])"
| "take_digits (c # cs) =
     (case digit_of c of
        None \<Rightarrow> ([], c # cs)
      | Some d \<Rightarrow> (d # fst (take_digits cs), snd (take_digits cs)))"

definition decimal :: "nat list \<Rightarrow> nat" where
  "decimal ds = foldl (\<lambda>a d. 10 * a + d) 0 ds"

definition stod_decimal :: "string \<Rightarrow> real option" where
  "stod_decimal s =
     (let neg = (s \<noteq> [] \<and> hd s = CHR ''-'');
          body = (if neg then tl s else s);
          ip = fst (take_digits body);
          r1 = snd (take_digits body);
          fp = (if r1 \<noteq> [] \<and> hd r1 = CHR ''.'' then fst (take_digits (tl r1)) else []);
          v = real (decimal ip) + real (decimal fp) / 10 ^ length fp
      in if ip = [] \<and> fp = [] then None else Some (if neg then - v else v))"

definition real_ops :: "real double_ops" where
  "real_ops =
     \<lparr>stod = stod_decimal, d_zero = 0, d_eq = (=), d_sub = (-), d_abs = abs,
      d_ge = (\<ge>), MINIMUM_TICK_SIZE = 2 / 10\<rparr>"

subsection \<open>WebSocketClient\<close>

text \<open>
  The network is the environment of \<^verbatim>\<open>run\<close>. Its blocking network calls are the
  connection attempt (resolve, connect and handshake inside one \<^verbatim>\<open>try\<close>) and
  \<^verbatim>\<open>m_ws.read\<close>; the script gives the outcome of each such call in the order in which
  the calls are made: \<open>Returns s\<close> when the call returns (for a read, \<open>s\<close> is the
  frame; for a connection attempt \<open>s\<close> is not used), \<open>Throws\<close> when it throws a
  \<^verbatim>\<open>beast::system_error\<close> (a graceful close included) or another
  \<^verbatim>\<open>std::exception\<close>; the two \<^verbatim>\<open>catch\<close> clauses differ only in what they
  log. When the script is exhausted the client stays blocked in the call it is making.

  The flag \<^verbatim>\<open>g_running\<close> is written by the signal handler only, which clears
  it. Between two consecutive reads of the flag \<^verbatim>\<open>run\<close> makes one blocking call
  (a network call or the sleep), except when the inner loop ends on a cleared flag and
  the test after the \<^verbatim>\<open>try\<close> block reads it again. So the flag is given as a
  function of the number of blocking calls completed so far (\<open>calls_done\<close>).
\<close>

datatype outcome = Returns string | Throws

datatype run_status = NotStarted | Connecting | Connected | Returned

record ws_client =
  m_ws_is_open :: bool
  status :: run_status
  calls_done :: nat
  sleeps :: "nat list"
  on_message_calls :: "string list"
  written :: "string list"
  send_errors :: nat

definition new_client :: ws_client where
  "new_client =
     \<lparr>m_ws_is_open = False, status = NotStarted, calls_done = 0, sleeps = [],
      on_message_calls = [], written = [], send_errors = 0\<rparr>"

definition call_done :: "ws_client \<Rightarrow> ws_client" where
  "call_done c = c\<lparr>calls_done := Suc (calls_done c)\<rparr>"

text \<open>
  \<open>run\<close> is the head of the outer loop, \<open>read_loop\<close> the head of the inner loop,
  \<open>after_try\<close> the code after the \<^verbatim>\<open>try\<close> block: the test that leaves the loop
  on shutdown, the cleanup (close if open, a fresh stream), the sleep.
\<close>

fun run :: "(nat \<Rightarrow> bool) \<Rightarrow> outcome list \<Rightarrow> ws_client \<Rightarrow> ws_client"
  and read_loop :: "(nat \<Rightarrow> bool) \<Rightarrow> outcome list \<Rightarrow> ws_client \<Rightarrow> ws_client"
  and after_try :: "(nat \<Rightarrow> bool) \<Rightarrow> outcome list \<Rightarrow> ws_client \<Rightarrow> ws_client"
where
  "run g_running script c =
     (if \<not> g_running (calls_done c) then c\<lparr>status := Returned\<rparr>
      else (case script of
              [] \<Rightarrow> c\<lparr>status := Connecting\<rparr>
            | Throws # script' \<Rightarrow> after_try g_running script' (call_done (c\<lparr>status := Connecting\<rparr>))
            | Returns s # script' \<Rightarrow>
                read_loop g_running script'
                  (call_done (c\<lparr>m_ws_is_open := True, status := Connected\<rparr>))))"
| "read_loop g_running script c =
     (if \<not> g_running (calls_done c) then after_try g_running script c
      else (case script of
              [] \<Rightarrow> c
            | Throws # script' \<Rightarrow> after_try g_running script' (call_done c)
            | Returns s # script' \<Rightarrow>
                read_loop g_running script'
                  (call_done (c\<lparr>on_message_calls := on_message_calls c @ [s]\<rparr>))))"
| "after_try g_running script c =
     (if \<not> g_running (calls_done c) then c\<lparr>status := Returned\<rparr>
      else run g_running script
             (call_done (c\<lparr>m_ws_is_open := False, status := Connecting,
                            sleeps := sleeps c @ [RECONNECT_INTERVAL_MS]\<rparr>)))"

text \<open>
  \<^verbatim>\<open>send\<close>: \<open>write_ok\<close> says whether \<^verbatim>\<open>m_ws.write\<close> returns; when it throws, the
  exception is caught and logged. The function returns nothing to its caller.
\<close>

definition send :: "bool \<Rightarrow> string \<Rightarrow> ws_client \<Rightarrow> ws_client" where
  "send write_ok message c =
     (if m_ws_is_open c then
        (if write_ok then c\<lparr>written := written c @ [message]\<rparr>
         else c\<lparr>send_errors := Suc (send_errors c)\<rparr>)
      else c)"

definition stop :: "ws_client \<Rightarrow> ws_client" where
  "stop c = (if m_ws_is_open c then c\<lparr>m_ws_is_open := False\<rparr> else c)"

text \<open>
  The downstream thread's loop \<^verbatim>\<open>while (message_queue.pop(msg)) send(msg)\<close>, run
  until \<^verbatim>\<open>pop\<close> blocks or returns false.
\<close>

function downstream_loop :: "bool \<Rightarrow> bool \<Rightarrow> string list \<Rightarrow> ws_client \<Rightarrow> string list \<times> ws_client" where
  "downstream_loop g_running write_ok m_queue c =
     (case pop g_running m_queue of
        (Popped msg_to_send, m_queue') \<Rightarrow>
          downstream_loop g_running write_ok m_queue' (send write_ok msg_to_send c)
      | (_, m_queue') \<Rightarrow> (m_queue', c))"
  by pat_completeness auto
termination
  by (relation "measure (\<lambda>(g, w, q, c). length q)")
     (auto simp: pop_def split: if_splits list.splits)

section \<open>The hub: data\_receiver\_server.cpp\<close>

text \<open>
  uWebSockets is an external library; the hub runs on its single event-loop thread, so a
  run of the hub is a sequence of handler invocations and of changes in the network. A
  socket is named by a number. The library's topic tree is the field \<open>subscribers\<close>;
  \<open>sent_to ws\<close> lists the frames the hub has sent to the connection \<open>ws\<close> since it
  was opened. The library calls a route's handlers only for a socket it has opened on
  that route and not yet closed, and it removes a closing socket from every topic.

  \<open>over_limit\<close> holds the sockets whose outbound buffer is saturated (over the library's
  backpressure limit); the network decides which they are (\<open>BufferFull\<close>,
  \<open>BufferDrained\<close>). The source sets neither the limit nor what happens at the limit,
  so the policy is a field of the hub, fixed when it starts:
  \<open>closeOnBackpressureLimit\<close> true disconnects a saturated subscriber, false drops the
  message for it.
\<close>

type_synonym socket = nat

record hub =
  closeOnBackpressureLimit :: bool
  client_id_counter :: int
  clientId :: "socket \<Rightarrow> int option"
  public_sockets :: "socket set"
  internal_sockets :: "socket set"
  subscribers :: "string \<Rightarrow> socket set"
  over_limit :: "socket set"
  sent_to :: "socket \<Rightarrow> string list"

definition BROADCAST_TOPIC :: string where
  "BROADCAST_TOPIC = ''trades''"

definition hub0 :: "bool \<Rightarrow> hub" where
  "hub0 policy =
     \<lparr>closeOnBackpressureLimit = policy, client_id_counter = 0, clientId = (\<lambda>ws. None),
      public_sockets = {}, internal_sockets = {}, subscribers = (\<lambda>topic. {}),
      over_limit = {}, sent_to = (\<lambda>ws. [])\<rparr>"

definition subscribe :: "socket \<Rightarrow> string \<Rightarrow> hub \<Rightarrow> hub" where
  "subscribe ws topic h = h\<lparr>subscribers := (subscribers h)(topic := insert ws (subscribers h topic))\<rparr>"

text \<open>
  The library closing sockets: they leave their route, every topic and the saturated
  set. The routes' \<^verbatim>\<open>close\<close> handlers only log.
\<close>

definition close_sockets :: "socket set \<Rightarrow> hub \<Rightarrow> hub" where
  "close_sockets S h =
     h\<lparr>public_sockets := public_sockets h - S,
       internal_sockets := internal_sockets h - S,
       subscribers := (\<lambda>topic. subscribers h topic - S),
       over_limit := over_limit h - S\<rparr>"

text \<open>
  Modelled from the spec: the library's \<^verbatim>\<open>ws->publish(topic, message, ...)\<close>, which is
  not among the sources. It republishes the payload, verbatim, to every currently
  registered subscriber of the topic (the publishing socket itself excepted); a
  subscriber whose outbound buffer is saturated either has the message dropped for it
  alone or is disconnected, depending on the configured policy; no other subscriber is
  affected.
\<close>

definition publish :: "socket \<Rightarrow> string \<Rightarrow> string \<Rightarrow> hub \<Rightarrow> hub" where
  "publish ws topic message h =
     (let receivers = subscribers h topic - {ws};
          saturated = receivers \<inter> over_limit h;
          h' = h\<lparr>sent_to := (\<lambda>s. if s \<in> receivers - saturated
                                   then sent_to h s @ [message] else sent_to h s)\<rparr>
      in if closeOnBackpressureLimit h then close_sockets saturated h' else h')"

datatype hub_event =
    PublicConnect socket
  | PublicMessage socket string
  | PublicClose socket
  | InternalConnect socket
  | InternalMessage socket string
  | InternalClose socket
  | BufferFull socket
  | BufferDrained socket

definition in_use :: "socket \<Rightarrow> hub \<Rightarrow> bool" where
  "in_use ws h = (ws \<in> public_sockets h \<or> ws \<in> internal_sockets h)"

text \<open>
  \<open>PublicConnect\<close> is the \<^verbatim>\<open>/public\<close> route's \<^verbatim>\<open>upgrade\<close> handler followed by
  its \<^verbatim>\<open>open\<close> handler; \<open>InternalConnect\<close> is the \<^verbatim>\<open>/internal\<close> route's
  \<^verbatim>\<open>open\<close> handler (that route has no \<^verbatim>\<open>upgrade\<close> handler: the library accepts
  every upgrade request).
\<close>

fun hub_step :: "hub_event \<Rightarrow> hub \<Rightarrow> hub" where
  "hub_step (PublicConnect ws) h =
     (if in_use ws h then h
      else subscribe ws BROADCAST_TOPIC
             (h\<lparr>clientId := (clientId h)(ws := Some (client_id_counter h)),
                client_id_counter := client_id_counter h + 1,
                public_sockets := insert ws (public_sockets h),
                sent_to := (sent_to h)(ws := [])\<rparr>))"
| "hub_step (PublicMessage ws message) h = h"
| "hub_step (PublicClose ws) h =
     (if ws \<in> public_sockets h then close_sockets {ws} h else h)"
| "hub_step (InternalConnect ws) h =
     (if in_use ws h then h
      else h\<lparr>internal_sockets := insert ws (internal_sockets h),
              sent_to := (sent_to h)(ws := [])\<rparr>)"
| "hub_step (InternalMessage ws message) h =
     (if ws \<in> internal_sockets h then publish ws BROADCAST_TOPIC message h else h)"
| "hub_step (InternalClose ws) h =
     (if ws \<in> internal_sockets h then close_sockets {ws} h else h)"
| "hub_step (BufferFull ws) h =
     (if in_use ws h then h\<lparr>over_limit := insert ws (over_limit h)\<rparr> else h)"
| "hub_step (BufferDrained ws) h = h\<lparr>over_limit := over_limit h - {ws}\<rparr>"

fun hub_run :: "hub_event list \<Rightarrow> hub \<Rightarrow> hub" where
  "hub_run [] h = h"
| "hub_run (e # es) h = hub_run es (hub_step e h)"

text \<open>The invariant of the hub's reachable states: the trades topic holds exactly the open
  public connections, and no socket is open on both routes.\<close>

definition hub_inv :: "hub \<Rightarrow> bool" where
  "hub_inv h \<longleftrightarrow>
     subscribers h BROADCAST_TOPIC = public_sockets h \<and>
     public_sockets h \<inter> internal_sockets h = {}"

section \<open>Helper lemmas\<close>

subsection \<open>Helper lemmas: the queue\<close>

lemma pop_closed: "pop False q = (Closed, q)"
  by (simp add: pop_def)

lemma pop_open_Nil: "pop True [] = (Blocked, [])"
  by (simp add: pop_def)

lemma pop_open_Cons: "pop True (x # q) = (Popped x, q)"
  by (simp add: pop_def)

lemma run_calls_open:
  "snd (run_calls True calls q got) @ fst (run_calls True calls q got) = got @ q @ pushed calls"
proof (induction calls arbitrary: q got)
  case Nil
  show ?case by simp
next
  case (Cons c calls)
  show ?case
  proof (cases c)
    case (Push producer v)
    then show ?thesis using Cons.IH [of "push v q" got] by (simp add: push_def)
  next
    case Pop
    show ?thesis
    proof (cases q)
      case Nil
      then show ?thesis using Pop Cons.IH [of "[]" got] by (simp add: pop_open_Nil)
    next
      case (Cons x xs)
      then show ?thesis using Pop Cons.IH [of xs "got @ [x]"] by (simp add: pop_open_Cons)
    qed
  qed
qed

declare downstream_loop.simps [simp del]

lemma downstream_loop_closed: "downstream_loop False w q c = (q, c)"
  by (subst downstream_loop.simps) (simp add: pop_closed)

lemma downstream_loop_open:
  "m_ws_is_open c \<Longrightarrow> downstream_loop True True q c = ([], c\<lparr>written := written c @ q\<rparr>)"
proof (induction q arbitrary: c)
  case Nil
  show ?case by (subst downstream_loop.simps) (simp add: pop_open_Nil)
next
  case (Cons x q)
  have "m_ws_is_open (send True x c)" using Cons.prems by (simp add: send_def)
  from Cons.IH [OF this] Cons.prems show ?case
    by (subst downstream_loop.simps) (simp add: pop_open_Cons send_def)
qed

subsection \<open>Helper lemmas: the filter\<close>

lemma observe_zero: "d_eq A l (d_zero A) \<Longrightarrow> observe A cur l = (cur, False)"
  by (simp add: observe_def)

lemma snd_observe:
  "snd (observe A cur l) \<longleftrightarrow> \<not> d_eq A l (d_zero A) \<and> significant A cur l"
  by (simp add: observe_def significant_def Let_def)

lemma fst_observe:
  "fst (observe A cur l) = (if d_eq A l (d_zero A) \<or> significant A cur l then cur else l)"
  by (simp add: observe_def significant_def Let_def)

lemma emissions_length: "length (emissions A l ps) = length ps"
  by (induction ps arbitrary: l) auto

lemma emissions_nth:
  "k < length ps \<Longrightarrow>
   emissions A l ps ! k = snd (observe A (ps ! k) (filter_state A l (take k ps)))"
proof (induction ps arbitrary: l k)
  case Nil
  then show ?case by simp
next
  case (Cons p ps)
  then show ?case by (cases k) auto
qed

lemma filter_state_snoc:
  "filter_state A l (ps @ [p]) = fst (observe A p (filter_state A l ps))"
  by (induction ps arbitrary: l) auto

lemma filter_state_take_Suc:
  assumes "k < length ps"
  shows "filter_state A l (take (Suc k) ps) = fst (observe A (ps ! k) (filter_state A l (take k ps)))"
  using assms by (simp add: take_Suc_conv_app_nth filter_state_snoc)

lemma filter_state_mem: "filter_state A l ps \<in> insert l (set ps)"
proof (induction ps arbitrary: l)
  case Nil
  show ?case by simp
next
  case (Cons p ps)
  from Cons.IH [of "fst (observe A p l)"] show ?case
    by (auto simp: fst_observe split: if_splits)
qed

lemma filter_state_last_significant:
  assumes "\<forall>p \<in> set ps. \<not> d_eq A p (d_zero A)" and "\<not> d_eq A l (d_zero A)"
  shows "filter_state A l ps = last (l # map fst (filter snd (zip ps (emissions A l ps))))"
  using assms
proof (induction ps arbitrary: l)
  case Nil
  show ?case by simp
next
  case (Cons p ps)
  show ?case
  proof (cases "significant A p l")
    case True
    then have o: "observe A p l = (p, True)"
      using Cons.prems by (simp add: observe_def significant_def)
    have "filter_state A p ps = last (p # map fst (filter snd (zip ps (emissions A p ps))))"
      using Cons.IH [of p] Cons.prems by simp
    then show ?thesis using o by simp
  next
    case False
    then have o: "observe A p l = (l, False)"
      using Cons.prems by (simp add: observe_def significant_def)
    have "filter_state A l ps = last (l # map fst (filter snd (zip ps (emissions A l ps))))"
      using Cons.IH [of l] Cons.prems by simp
    then show ?thesis using o by simp
  qed
qed

lemma on_binance_message_trade:
  assumes "string_view doc ''e'' = Some ''trade''" and "string_view doc ''p'' = Some s"
    and "stod A s = Some cur"
  shows "on_binance_message A (Doc doc) st =
         st\<lparr>message_queue :=
               message_queue st @ (if snd (observe A cur (g_last_sent_trade_price st)) then [payload_of s] else []),
            g_last_sent_trade_price := fst (observe A cur (g_last_sent_trade_price st))\<rparr>"
  using assms
  by (cases "observe A cur (g_last_sent_trade_price st)")
     (auto simp: on_binance_message_def push_def)

lemma on_binance_message_queue:
  "message_queue (on_binance_message A msg st) = message_queue st \<or>
   (\<exists>s. message_queue (on_binance_message A msg st) = message_queue st @ [payload_of s])"
  by (auto simp: on_binance_message_def push_def
           split: frame.splits option.splits prod.splits bool.splits)

lemma real_ops_simps:
  "d_zero real_ops = 0" "d_eq real_ops = (=)" "d_sub real_ops = (-)" "d_abs real_ops = abs"
  "d_ge real_ops = (\<ge>)" "MINIMUM_TICK_SIZE real_ops = 2 / 10" "stod real_ops = stod_decimal"
  by (simp_all add: real_ops_def)

lemma stod_decimal_100_5: "stod_decimal ''100.5'' = Some (201 / 2)"
  by (simp add: stod_decimal_def digit_of_def decimal_def)

subsection \<open>Helper lemmas: the client\<close>

declare run.simps [simp del] read_loop.simps [simp del] after_try.simps [simp del]

lemma run_stopped: "\<not> g (calls_done c) \<Longrightarrow> run g es c = c\<lparr>status := Returned\<rparr>"
  by (subst run.simps) simp

lemma run_Nil: "g (calls_done c) \<Longrightarrow> run g [] c = c\<lparr>status := Connecting\<rparr>"
  by (subst run.simps) simp

lemma run_Throws:
  assumes "g (calls_done c)" and "g (Suc (calls_done c))"
  shows "run g (Throws # es) c =
         run g es (c\<lparr>m_ws_is_open := False, status := Connecting,
                     calls_done := calls_done c + 2,
                     sleeps := sleeps c @ [RECONNECT_INTERVAL_MS]\<rparr>)"
proof -
  have "run g (Throws # es) c =
        run g es (call_done (call_done (c\<lparr>status := Connecting\<rparr>)
                    \<lparr>m_ws_is_open := False, status := Connecting,
                     sleeps := sleeps (call_done (c\<lparr>status := Connecting\<rparr>)) @ [RECONNECT_INTERVAL_MS]\<rparr>))"
    using assms by (subst run.simps, subst after_try.simps) (simp add: call_done_def)
  also have "call_done (call_done (c\<lparr>status := Connecting\<rparr>)
                    \<lparr>m_ws_is_open := False, status := Connecting,
                     sleeps := sleeps (call_done (c\<lparr>status := Connecting\<rparr>)) @ [RECONNECT_INTERVAL_MS]\<rparr>) =
             c\<lparr>m_ws_is_open := False, status := Connecting,
                     calls_done := calls_done c + 2,
                     sleeps := sleeps c @ [RECONNECT_INTERVAL_MS]\<rparr>"
    by (rule ws_client.equality) (simp_all add: call_done_def)
  finally show ?thesis .
qed

lemma run_Returns_last:
  assumes "g (calls_done c)" and "g (Suc (calls_done c))"
  shows "run g [Returns s] c =
         c\<lparr>m_ws_is_open := True, status := Connected, calls_done := Suc (calls_done c)\<rparr>"
  using assms
  by (subst run.simps, subst read_loop.simps) (simp add: call_done_def)

lemma run_retries:
  assumes "\<forall>k. calls_done c \<le> k \<and> k < calls_done c + 2 * N \<longrightarrow> g k"
  shows "run g (replicate N Throws @ es) c =
         run g es (if N = 0 then c
                   else c\<lparr>m_ws_is_open := False, status := Connecting,
                          calls_done := calls_done c + 2 * N,
                          sleeps := sleeps c @ replicate N RECONNECT_INTERVAL_MS\<rparr>)"
  using assms
proof (induction N arbitrary: c)
  case 0
  show ?case by simp
next
  case (Suc N)
  let ?c' = "c\<lparr>m_ws_is_open := False, status := Connecting,
                calls_done := calls_done c + 2,
                sleeps := sleeps c @ [RECONNECT_INTERVAL_MS]\<rparr>"
  have g0: "g (calls_done c)" and g1: "g (Suc (calls_done c))"
    using Suc.prems by simp_all
  have rest: "\<forall>k. calls_done ?c' \<le> k \<and> k < calls_done ?c' + 2 * N \<longrightarrow> g k"
    using Suc.prems by simp
  have "run g (replicate (Suc N) Throws @ es) c = run g (replicate N Throws @ es) ?c'"
    using run_Throws [OF g0 g1] by simp
  also have "\<dots> = run g es (if N = 0 then ?c'
                   else ?c'\<lparr>m_ws_is_open := False, status := Connecting,
                          calls_done := calls_done ?c' + 2 * N,
                          sleeps := sleeps ?c' @ replicate N RECONNECT_INTERVAL_MS\<rparr>)"
    by (rule Suc.IH [OF rest])
  also have "(if N = 0 then ?c'
                   else ?c'\<lparr>m_ws_is_open := False, status := Connecting,
                          calls_done := calls_done ?c' + 2 * N,
                          sleeps := sleeps ?c' @ replicate N RECONNECT_INTERVAL_MS\<rparr>) =
             c\<lparr>m_ws_is_open := False, status := Connecting,
                          calls_done := calls_done c + 2 * Suc N,
                          sleeps := sleeps c @ replicate (Suc N) RECONNECT_INTERVAL_MS\<rparr>"
    by (simp add: replicate_app_Cons_same)
  finally show ?case by simp
qed

lemma run_connecting_closed:
  "(\<not> m_ws_is_open c \<longrightarrow> status (run g es c) = Connecting \<longrightarrow> \<not> m_ws_is_open (run g es c))"
  "(status c = Connected \<longrightarrow> status (read_loop g es c) = Connecting \<longrightarrow> \<not> m_ws_is_open (read_loop g es c))"
  "(status (after_try g es c) = Connecting \<longrightarrow> \<not> m_ws_is_open (after_try g es c))"
proof (induction g es c and g es c and g es c rule: run_read_loop_after_try.induct)
  case (1 g script c)
  then show ?case
    by (subst (1 2) run.simps)
       (auto simp: call_done_def split: list.splits outcome.splits)
next
  case (2 g script c)
  then show ?case
    by (subst (1 2) read_loop.simps)
       (auto simp: call_done_def split: list.splits outcome.splits)
next
  case (3 g script c)
  then show ?case
    by (subst (1 2) after_try.simps) (auto simp: call_done_def)
qed

subsection \<open>Helper lemmas: the hub\<close>

lemma hub_inv_hub0: "hub_inv (hub0 policy)"
  by (simp add: hub_inv_def hub0_def)

lemma hub_inv_step: "hub_inv h \<Longrightarrow> hub_inv (hub_step e h)"
  by (cases e)
     (auto simp: hub_inv_def in_use_def subscribe_def publish_def close_sockets_def Let_def)

lemma hub_inv_run: "hub_inv h \<Longrightarrow> hub_inv (hub_run es h)"
  by (induction es arbitrary: h) (simp_all add: hub_inv_step)

lemma hub_run_append: "hub_run (es @ es') h = hub_run es' (hub_run es h)"
  by (induction es arbitrary: h) simp_all

lemma publish_sent_to:
  "sent_to (publish p topic m h) s =
     (if s \<in> subscribers h topic \<and> s \<noteq> p \<and> s \<notin> over_limit h
      then sent_to h s @ [m] else sent_to h s)"
  by (auto simp: publish_def close_sockets_def Let_def)

lemma publish_public_sockets:
  "public_sockets (publish p topic m h) =
     (if closeOnBackpressureLimit h
      then public_sockets h - (subscribers h topic - {p}) \<inter> over_limit h
      else public_sockets h)"
  by (simp add: publish_def close_sockets_def Let_def)

lemma publish_reaches_subscribers:
  assumes "hub_inv h" and "p \<in> internal_sockets h"
  shows "sent_to (hub_step (InternalMessage p m) h) s =
         (if s \<in> public_sockets h \<and> s \<notin> over_limit h then sent_to h s @ [m] else sent_to h s)"
  using assms by (auto simp: hub_inv_def publish_sent_to)

lemma policy_step: "closeOnBackpressureLimit (hub_step e h) = closeOnBackpressureLimit h"
  by (cases e) (simp_all add: subscribe_def publish_def close_sockets_def Let_def)

lemma policy_run: "closeOnBackpressureLimit (hub_run es h) = closeOnBackpressureLimit h"
  by (induction es arbitrary: h) (simp_all add: policy_step)

lemma policy_reachable: "closeOnBackpressureLimit (hub_run es (hub0 policy)) = policy"
  by (simp add: policy_run hub0_def)

lemmas hub_eval =
  hub0_def in_use_def subscribe_def publish_def close_sockets_def Let_def BROADCAST_TOPIC_def

section \<open>The claims\<close>

text \<open>
  Claim C10. Whenever the stored last price compares equal to \<^verbatim>\<open>0.0\<close> (the initial
  value, or after a trade priced \<^verbatim>\<open>0.0\<close> was accepted as significant), the next
  observation emits nothing and overwrites the baseline with the current price: a zero
  price never serves as a comparison baseline, and an accepted zero price re-arms the
  cold start.
\<close>

theorem zero_price_sentinel:
  "(d_eq A l (d_zero A) \<longrightarrow> observe A cur l = (cur, False)) \<and>
   (d_eq A z (d_zero A) \<and> snd (observe A z l') \<longrightarrow>
      observe A cur (fst (observe A z l')) = (cur, False)) \<and>
   (d_eq A (g_last_sent_trade_price st) (d_zero A) \<and> string_view doc ''e'' = Some ''trade'' \<and>
    string_view doc ''p'' = Some s \<and> stod A s = Some cur \<longrightarrow>
      on_binance_message A (Doc doc) st = st\<lparr>g_last_sent_trade_price := cur\<rparr>)"
proof (intro conjI impI)
  assume "d_eq A l (d_zero A)"
  then show "observe A cur l = (cur, False)" by (rule observe_zero)
next
  assume a: "d_eq A z (d_zero A) \<and> snd (observe A z l')"
  then have "fst (observe A z l') = z" by (simp add: fst_observe snd_observe)
  with a show "observe A cur (fst (observe A z l')) = (cur, False)"
    by (simp add: observe_zero)
next
  assume a: "d_eq A (g_last_sent_trade_price st) (d_zero A) \<and> string_view doc ''e'' = Some ''trade'' \<and>
    string_view doc ''p'' = Some s \<and> stod A s = Some cur"
  then have "observe A cur (g_last_sent_trade_price st) = (cur, False)"
    by (simp add: observe_zero)
  with a show "on_binance_message A (Doc doc) st = st\<lparr>g_last_sent_trade_price := cur\<rparr>"
    by (simp add: on_binance_message_trade)
qed

theorem zero_price_sentinel_witness:
  "d_eq real_ops 0 (d_zero real_ops) \<and> observe real_ops 5 0 = (5, False) \<and>
   snd (observe real_ops 0 100) \<and>
   observe real_ops 5 (fst (observe real_ops 0 100)) = (5, False) \<and>
   emissions real_ops 0 [100, 0, 50] = [False, True, False] \<and>
   filter_state real_ops 0 [100, 0, 50] = 50"
proof -
  have z: "d_eq real_ops 0 (d_zero real_ops)" by (simp add: real_ops_simps)
  have s: "snd (observe real_ops 0 100)" by (simp add: observe_def real_ops_simps)
  have e: "emissions real_ops 0 [100, 0, 50] = [False, True, False]"
    by (simp add: observe_def real_ops_simps)
  have f: "filter_state real_ops 0 [100, 0, 50] = 50"
    by (simp add: observe_def real_ops_simps)
  from zero_price_sentinel [of real_ops 0 5 0 100] z s e f show ?thesis by simp
qed

text \<open>
  Claim C1, as amended. Starting from the initial state, the first observation never
  emits, every observation pushes at most one payload, and an observation emits if and
  only if the stored price does not compare equal to \<^verbatim>\<open>0.0\<close> and
  \<^verbatim>\<open>abs(currentPrice - lastEmittedPrice) >= MINIMUM_TICK_SIZE\<close>, the stored price being the
  state before that observation. (The claim as stated omits the first condition; it
  fails when the stored price is zero.)
\<close>

theorem emission_rule:
  assumes "d_eq A (d_zero A) (d_zero A)"
  shows "(ps \<noteq> [] \<longrightarrow> \<not> emissions A (d_zero A) ps ! 0) \<and>
         length (emissions A (d_zero A) ps) = length ps \<and>
         (\<forall>k < length ps.
            emissions A (d_zero A) ps ! k \<longleftrightarrow>
              \<not> d_eq A (filter_state A (d_zero A) (take k ps)) (d_zero A) \<and>
              significant A (ps ! k) (filter_state A (d_zero A) (take k ps))) \<and>
         (message_queue (on_binance_message A msg st) = message_queue st \<or>
          (\<exists>s. message_queue (on_binance_message A msg st) = message_queue st @ [payload_of s]))"
proof (intro conjI impI allI)
  assume "ps \<noteq> []"
  then have "0 < length ps" by simp
  from emissions_nth [OF this, of A "d_zero A"] assms
  show "\<not> emissions A (d_zero A) ps ! 0" by (simp add: snd_observe)
next
  show "length (emissions A (d_zero A) ps) = length ps" by (rule emissions_length)
next
  fix k assume "k < length ps"
  then show "emissions A (d_zero A) ps ! k \<longleftrightarrow>
      \<not> d_eq A (filter_state A (d_zero A) (take k ps)) (d_zero A) \<and>
      significant A (ps ! k) (filter_state A (d_zero A) (take k ps))"
    by (simp add: emissions_nth snd_observe)
next
  show "message_queue (on_binance_message A msg st) = message_queue st \<or>
          (\<exists>s. message_queue (on_binance_message A msg st) = message_queue st @ [payload_of s])"
    by (rule on_binance_message_queue)
qed

theorem emission_rule_witness:
  "d_eq real_ops (d_zero real_ops) (d_zero real_ops) \<and>
   emissions real_ops (d_zero real_ops) [100, 100.1, 100.3] = [False, False, True] \<and>
   \<not> emissions real_ops (d_zero real_ops) [100, 100.1, 100.3] ! 0 \<and>
   \<not> d_eq real_ops (filter_state real_ops (d_zero real_ops) (take 2 [100, 100.1, 100.3])) (d_zero real_ops) \<and>
   significant real_ops ([100, 100.1, 100.3] ! 2)
     (filter_state real_ops (d_zero real_ops) (take 2 [100, 100.1, 100.3]))"
proof -
  have z: "d_eq real_ops (d_zero real_ops) (d_zero real_ops)" by (simp add: real_ops_simps)
  have e: "emissions real_ops (d_zero real_ops) [100, 100.1, 100.3] = [False, False, True]"
    by (simp add: observe_def real_ops_simps)
  have k: "(2::nat) < length [100, 100.1, 100.3 :: real]" by simp
  from emission_rule [OF z, of "[100, 100.1, 100.3]"] have
    "\<forall>k < length [100, 100.1, 100.3 :: real].
       emissions real_ops (d_zero real_ops) [100, 100.1, 100.3] ! k \<longleftrightarrow>
       \<not> d_eq real_ops (filter_state real_ops (d_zero real_ops) (take k [100, 100.1, 100.3])) (d_zero real_ops) \<and>
       significant real_ops ([100, 100.1, 100.3] ! k)
         (filter_state real_ops (d_zero real_ops) (take k [100, 100.1, 100.3]))"
    by blast
  from this [rule_format, OF k] e z show ?thesis by simp
qed

theorem emission_iff_counterexample:
  "\<not> (emissions real_ops (d_zero real_ops) [0, 5] ! 1 \<longleftrightarrow>
       significant real_ops ([0, 5] ! 1) (filter_state real_ops (d_zero real_ops) (take 1 [0, 5])))"
  by (simp add: observe_def significant_def real_ops_simps)

text \<open>
  Claim C4, as amended. Provided no observed price compares equal to \<^verbatim>\<open>0.0\<close>:
  after any non-empty sequence of observations the stored price is the price of the most
  recent observation that emitted (was judged significant), or the first price observed
  if none has emitted; and no observation that is neither the first nor significant
  changes it. (Without the proviso the claim fails: a stored zero is overwritten by the
  next observation, which emits nothing.)
\<close>

theorem last_emitted_invariant:
  assumes "d_eq A (d_zero A) (d_zero A)"
    and "\<forall>p \<in> set ps. \<not> d_eq A p (d_zero A)"
    and "ps \<noteq> []"
  shows "filter_state A (d_zero A) ps =
           last (hd ps # map fst (filter snd (zip (tl ps) (tl (emissions A (d_zero A) ps))))) \<and>
         (\<forall>k. 0 < k \<and> k < length ps \<and> \<not> emissions A (d_zero A) ps ! k \<longrightarrow>
            filter_state A (d_zero A) (take (Suc k) ps) = filter_state A (d_zero A) (take k ps))"
proof -
  from assms(3) obtain p0 rest where ps: "ps = p0 # rest" by (cases ps) auto
  have first: "observe A p0 (d_zero A) = (p0, False)"
    using assms(1) by (rule observe_zero)
  have p0: "\<not> d_eq A p0 (d_zero A)" and rest: "\<forall>p \<in> set rest. \<not> d_eq A p (d_zero A)"
    using assms(2) ps by simp_all
  have a: "filter_state A (d_zero A) ps =
           last (hd ps # map fst (filter snd (zip (tl ps) (tl (emissions A (d_zero A) ps)))))"
    using filter_state_last_significant [OF rest p0] first ps by simp
  have b: "filter_state A (d_zero A) (take (Suc k) ps) = filter_state A (d_zero A) (take k ps)"
    if k: "0 < k" "k < length ps" and quiet: "\<not> emissions A (d_zero A) ps ! k" for k
  proof -
    from k obtain j where j: "k = Suc j" by (cases k) auto
    have "filter_state A (d_zero A) (take k ps) = filter_state A p0 (take j rest)"
      using first ps j by simp
    moreover have "filter_state A p0 (take j rest) \<in> insert p0 (set (take j rest))"
      by (rule filter_state_mem)
    moreover have "set (take j rest) \<subseteq> set rest" by (rule set_take_subset)
    ultimately have nz: "\<not> d_eq A (filter_state A (d_zero A) (take k ps)) (d_zero A)"
      using p0 rest by auto
    from quiet k(2) have "\<not> snd (observe A (ps ! k) (filter_state A (d_zero A) (take k ps)))"
      by (simp add: emissions_nth)
    with nz have "\<not> significant A (ps ! k) (filter_state A (d_zero A) (take k ps))"
      by (simp add: snd_observe)
    with nz show ?thesis
      using k(2) by (simp add: filter_state_take_Suc fst_observe)
  qed
  from a b show ?thesis by blast
qed

theorem last_emitted_invariant_witness:
  "d_eq real_ops (d_zero real_ops) (d_zero real_ops) \<and>
   emissions real_ops (d_zero real_ops) [100, 100.1, 100.5, 100.6] = [False, False, True, False] \<and>
   filter_state real_ops (d_zero real_ops) [100, 100.1, 100.5, 100.6] = 100.5 \<and>
   filter_state real_ops (d_zero real_ops) (take (Suc 3) [100, 100.1, 100.5, 100.6]) =
     filter_state real_ops (d_zero real_ops) (take 3 [100, 100.1, 100.5, 100.6])"
proof -
  let ?ps = "[100, 100.1, 100.5, 100.6] :: real list"
  have z: "d_eq real_ops (d_zero real_ops) (d_zero real_ops)" by (simp add: real_ops_simps)
  have nz: "\<forall>p \<in> set ?ps. \<not> d_eq real_ops p (d_zero real_ops)" by (simp add: real_ops_simps)
  have ne: "?ps \<noteq> []" by simp
  have e: "emissions real_ops (d_zero real_ops) ?ps = [False, False, True, False]"
    by (simp add: observe_def real_ops_simps)
  note inv = last_emitted_invariant [OF z nz ne]
  from inv e have f: "filter_state real_ops (d_zero real_ops) ?ps = 100.5" by simp
  from inv have "0 < (3::nat) \<and> 3 < length ?ps \<and> \<not> emissions real_ops (d_zero real_ops) ?ps ! 3 \<longrightarrow>
     filter_state real_ops (d_zero real_ops) (take (Suc 3) ?ps) = filter_state real_ops (d_zero real_ops) (take 3 ?ps)"
    by blast
  with e have "filter_state real_ops (d_zero real_ops) (take (Suc 3) ?ps) = filter_state real_ops (d_zero real_ops) (take 3 ?ps)"
    by simp
  with z e f show ?thesis by simp
qed

theorem last_emitted_invariant_counterexample:
  "emissions real_ops (d_zero real_ops) [0, 5] = [False, False] \<and>
   filter_state real_ops (d_zero real_ops) (take 1 [0, 5]) = 0 \<and>
   filter_state real_ops (d_zero real_ops) [0, 5] = 5 \<and>
   filter_state real_ops (d_zero real_ops) [0, 5] \<noteq>
     last (hd [0, 5] # map fst (filter snd (zip (tl [0, 5]) (tl (emissions real_ops (d_zero real_ops) [0, 5])))))"
  by (simp add: observe_def real_ops_simps)

text \<open>
  Claim C3, as amended. Once \<^verbatim>\<open>g_running\<close> is false (the shutdown signal), a
  \<^verbatim>\<open>pop\<close> call returns the closed signal at once, without blocking and without
  dequeuing, whether or not items are still queued; in particular on an empty queue. The
  downstream loop therefore ends without sending what is left in the queue.
\<close>

theorem pop_after_shutdown:
  "pop False m_queue = (Closed, m_queue) \<and>
   downstream_loop False write_ok m_queue c = (m_queue, c)"
  by (simp add: pop_closed downstream_loop_closed)

theorem pop_after_shutdown_witness:
  "pop False [''a'', ''b''] = (Closed, [''a'', ''b'']) \<and>
   pop False ([] :: string list) = (Closed, []) \<and>
   downstream_loop False True [''a'', ''b''] new_client = ([''a'', ''b''], new_client)"
  using pop_after_shutdown [of "[''a'', ''b'']" True new_client]
    pop_after_shutdown [of "[] :: string list" True new_client]
  by simp

theorem pop_drains_counterexample:
  "pop False [''a''] = (Closed, [''a'']) \<and> fst (pop False [''a'']) \<noteq> Popped ''a''"
  by (simp add: pop_def)

text \<open>
  Claim C7. For every history of \<^verbatim>\<open>push\<close> calls by any number of producers and
  \<^verbatim>\<open>pop\<close> calls by the consumer on an open channel (each call atomic under the
  mutex), the items the pops returned, followed by the items still queued, are exactly
  the pushed items in push order: no loss, no duplication, no reordering.
\<close>

theorem queue_fifo:
  "snd (run_calls True calls [] []) @ fst (run_calls True calls [] []) = pushed calls"
  using run_calls_open [of calls "[]" "[]"] by simp

theorem queue_fifo_witness:
  "run_calls True [Push 1 ''a'', Pop, Pop, Push 2 ''b'', Push 1 ''c'', Pop] [] [] = ([''c''], [''a'', ''b'']) \<and>
   pushed [Push 1 ''a'', Pop, Pop, Push 2 ''b'', Push 1 ''c'', Pop] = [''a'', ''b'', ''c'']"
proof -
  have r: "run_calls True [Push 1 ''a'', Pop, Pop, Push 2 ''b'', Push 1 ''c'', Pop] [] [] = ([''c''], [''a'', ''b''])"
    by (simp add: pop_def push_def)
  from queue_fifo [of "[Push 1 ''a'', Pop, Pop, Push 2 ''b'', Push 1 ''c'', Pop]"] r
  show ?thesis by simp
qed

text \<open>
  Claim C2, as amended. For every significant trade the payload pushed on the queue is
  the byte string \<^verbatim>\<open>{"type":"S","p":<price-string>}\<close>, the feed's price field
  reproduced character for character with no quotes added around it (so it is not the
  string with the price in quotes); the downstream loop writes the queued payloads
  unchanged, in order, to an open connection.
\<close>

theorem payload_format:
  assumes "string_view doc ''e'' = Some ''trade''" and "string_view doc ''p'' = Some price_sv"
    and "stod A price_sv = Some cur"
    and "snd (observe A cur (g_last_sent_trade_price st))"
  shows \<open>message_queue (on_binance_message A (Doc doc) st) =
           message_queue st @ [''{"type":"S","p":'' @ price_sv @ ''}''] \<and>
         message_queue (on_binance_message A (Doc doc) st) \<noteq>
           message_queue st @ [''{"type":"S","p":"'' @ price_sv @ ''"}''] \<and>
         (m_ws_is_open c \<longrightarrow>
            downstream_loop True True (message_queue (on_binance_message A (Doc doc) st)) c =
              ([], c\<lparr>written := written c @ message_queue st @ [''{"type":"S","p":'' @ price_sv @ ''}'']\<rparr>))\<close>
proof -
  have q: "message_queue (on_binance_message A (Doc doc) st) = message_queue st @ [payload_of price_sv]"
    using assms by (simp add: on_binance_message_trade)
  have \<open>length (''{"type":"S","p":'' @ price_sv @ ''}'') \<noteq>
        length (''{"type":"S","p":"'' @ price_sv @ ''"}'')\<close> by simp
  then have n: \<open>''{"type":"S","p":'' @ price_sv @ ''}'' \<noteq> ''{"type":"S","p":"'' @ price_sv @ ''"}''\<close>
    by (rule contrapos_nn) (erule arg_cong)
  from q n show ?thesis by (simp add: downstream_loop_open payload_of_def)
qed

theorem payload_format_witness:
  \<open>snd (observe real_ops (201 / 2) 100) \<and>
   message_queue (on_binance_message real_ops (Doc [(''e'', JString ''trade''), (''p'', JString ''100.5'')])
      \<lparr>g_last_sent_trade_price = 100, message_queue = []\<rparr>) = [''{"type":"S","p":100.5}'']\<close>
proof -
  let ?doc = "[(''e'', JString ''trade''), (''p'', JString ''100.5'')]"
  let ?st = "\<lparr>g_last_sent_trade_price = 100 :: real, message_queue = []\<rparr>"
  have e: "string_view ?doc ''e'' = Some ''trade''" by (simp add: string_view_def)
  have p: "string_view ?doc ''p'' = Some ''100.5''" by (simp add: string_view_def)
  have s: "stod real_ops ''100.5'' = Some (201 / 2)" by (simp add: real_ops_simps stod_decimal_100_5)
  have o: "snd (observe real_ops (201 / 2) (g_last_sent_trade_price ?st))"
    by (simp add: observe_def real_ops_simps)
  from payload_format [OF e p s o] o show ?thesis by simp
qed

theorem payload_quoted_counterexample:
  \<open>message_queue (on_binance_message real_ops (Doc [(''e'', JString ''trade''), (''p'', JString ''100.5'')])
      \<lparr>g_last_sent_trade_price = 100, message_queue = []\<rparr>) = [''{"type":"S","p":100.5}''] \<and>
   message_queue (on_binance_message real_ops (Doc [(''e'', JString ''trade''), (''p'', JString ''100.5'')])
      \<lparr>g_last_sent_trade_price = 100, message_queue = []\<rparr>) \<noteq> [''{"type":"S","p":"100.5"}'']\<close>
  by (simp add: on_binance_message_def string_view_def real_ops_simps stod_decimal_100_5
        observe_def push_def payload_of_def)

text \<open>
  Claim C6. When the connection attempts of a new client fail \<open>N\<close> times and then
  succeed while \<^verbatim>\<open>g_running\<close> stays true, \<^verbatim>\<open>run\<close> reaches the connected state by
  itself, having slept exactly \<open>N\<close> times, each time for \<^verbatim>\<open>RECONNECT_INTERVAL_MS\<close> =
  3000 ms (no growth). There is no bound on \<open>N\<close>: after \<open>N\<close> failures with the flag
  still true the client is making attempt \<open>N + 1\<close>. With the flag false on entry
  \<^verbatim>\<open>run\<close> returns at once.
\<close>

theorem reconnect_after_failures:
  "((\<forall>k \<le> 2 * N + 1. g_running k) \<longrightarrow>
      run g_running (replicate N Throws @ [Returns s]) new_client =
        new_client\<lparr>m_ws_is_open := True, status := Connected, calls_done := 2 * N + 1,
                     sleeps := replicate N 3000\<rparr>) \<and>
   ((\<forall>k \<le> 2 * N. g_running k) \<longrightarrow>
      run g_running (replicate N Throws) new_client =
        new_client\<lparr>status := Connecting, calls_done := 2 * N, sleeps := replicate N 3000\<rparr>) \<and>
   (\<not> g_running 0 \<longrightarrow> run g_running script new_client = new_client\<lparr>status := Returned\<rparr>)"
proof (intro conjI impI)
  assume g: "\<forall>k \<le> 2 * N + 1. g_running k"
  let ?c = "if N = 0 then new_client
            else new_client\<lparr>m_ws_is_open := False, status := Connecting,
                   calls_done := calls_done new_client + 2 * N,
                   sleeps := sleeps new_client @ replicate N RECONNECT_INTERVAL_MS\<rparr>"
  have cd: "calls_done ?c = 2 * N" by (simp add: new_client_def)
  have "\<forall>k. calls_done new_client \<le> k \<and> k < calls_done new_client + 2 * N \<longrightarrow> g_running k"
    using g by (simp add: new_client_def)
  from run_retries [OF this, of "[Returns s]"]
  have "run g_running (replicate N Throws @ [Returns s]) new_client = run g_running [Returns s] ?c" .
  also have "\<dots> = ?c\<lparr>m_ws_is_open := True, status := Connected, calls_done := Suc (calls_done ?c)\<rparr>"
    using g cd by (intro run_Returns_last) simp_all
  also have "\<dots> = new_client\<lparr>m_ws_is_open := True, status := Connected, calls_done := 2 * N + 1,
                     sleeps := replicate N 3000\<rparr>"
    by (rule ws_client.equality) (simp_all add: new_client_def RECONNECT_INTERVAL_MS_def)
  finally show "run g_running (replicate N Throws @ [Returns s]) new_client =
        new_client\<lparr>m_ws_is_open := True, status := Connected, calls_done := 2 * N + 1,
                     sleeps := replicate N 3000\<rparr>" .
next
  assume g: "\<forall>k \<le> 2 * N. g_running k"
  let ?c = "if N = 0 then new_client
            else new_client\<lparr>m_ws_is_open := False, status := Connecting,
                   calls_done := calls_done new_client + 2 * N,
                   sleeps := sleeps new_client @ replicate N RECONNECT_INTERVAL_MS\<rparr>"
  have cd: "calls_done ?c = 2 * N" by (simp add: new_client_def)
  have "\<forall>k. calls_done new_client \<le> k \<and> k < calls_done new_client + 2 * N \<longrightarrow> g_running k"
    using g by (simp add: new_client_def)
  from run_retries [OF this, of "[]"]
  have "run g_running (replicate N Throws) new_client = run g_running [] ?c" by simp
  also have "\<dots> = ?c\<lparr>status := Connecting\<rparr>"
    using g cd by (intro run_Nil) simp
  also have "\<dots> = new_client\<lparr>status := Connecting, calls_done := 2 * N, sleeps := replicate N 3000\<rparr>"
    by (rule ws_client.equality) (simp_all add: new_client_def RECONNECT_INTERVAL_MS_def)
  finally show "run g_running (replicate N Throws) new_client =
        new_client\<lparr>status := Connecting, calls_done := 2 * N, sleeps := replicate N 3000\<rparr>" .
next
  assume "\<not> g_running 0"
  then show "run g_running script new_client = new_client\<lparr>status := Returned\<rparr>"
    by (intro run_stopped) (simp add: new_client_def)
qed

theorem reconnect_after_failures_witness:
  "run (\<lambda>k. True) [Throws, Throws, Throws, Returns ''''] new_client =
     \<lparr>m_ws_is_open = True, status = Connected, calls_done = 7, sleeps = [3000, 3000, 3000],
      on_message_calls = [], written = [], send_errors = 0\<rparr> \<and>
   run (\<lambda>k. True) [Throws, Throws, Throws] new_client =
     \<lparr>m_ws_is_open = False, status = Connecting, calls_done = 6, sleeps = [3000, 3000, 3000],
      on_message_calls = [], written = [], send_errors = 0\<rparr> \<and>
   run (\<lambda>k. False) [Throws, Returns ''''] new_client =
     \<lparr>m_ws_is_open = False, status = Returned, calls_done = 0, sleeps = [],
      on_message_calls = [], written = [], send_errors = 0\<rparr>"
proof -
  have r: "replicate 3 Throws = [Throws, Throws, Throws]" by (simp add: numeral_3_eq_3)
  from reconnect_after_failures [of 3 "\<lambda>k. True" "''''" "[Throws, Returns '''']"]
    reconnect_after_failures [of 0 "\<lambda>k. False" "''''" "[Throws, Returns '''']"]
  show ?thesis by (simp add: r new_client_def numeral_3_eq_3)
qed

text \<open>
  Claim C8. A call to \<^verbatim>\<open>send\<close> on a client whose stream is not open changes nothing:
  the payload is neither written nor kept, nothing is logged, and the caller gets no
  error. The stream is not open whenever the client is not connected: in a client that
  was never run, in every state in which \<^verbatim>\<open>run\<close> waits to reconnect or is making a
  connection attempt, and after \<^verbatim>\<open>stop\<close>.
\<close>

theorem send_when_not_connected:
  "(\<not> m_ws_is_open c \<longrightarrow> send write_ok message c = c) \<and>
   (status (run g_running script new_client) = Connecting \<longrightarrow>
      send write_ok message (run g_running script new_client) = run g_running script new_client) \<and>
   send write_ok message new_client = new_client \<and>
   send write_ok message (stop c) = stop c"
proof (intro conjI impI)
  assume "\<not> m_ws_is_open c"
  then show "send write_ok message c = c" by (simp add: send_def)
next
  assume "status (run g_running script new_client) = Connecting"
  moreover have "\<not> m_ws_is_open new_client" by (simp add: new_client_def)
  ultimately have "\<not> m_ws_is_open (run g_running script new_client)"
    using run_connecting_closed(1) [of new_client g_running script] by simp
  then show "send write_ok message (run g_running script new_client) = run g_running script new_client"
    by (simp add: send_def)
next
  show "send write_ok message new_client = new_client" by (simp add: send_def new_client_def)
next
  show "send write_ok message (stop c) = stop c" by (simp add: send_def stop_def)
qed

theorem send_when_not_connected_witness:
  "status (run (\<lambda>k. True) [Returns '''', Throws] new_client) = Connecting \<and>
   send True ''x'' (run (\<lambda>k. True) [Returns '''', Throws] new_client) =
     run (\<lambda>k. True) [Returns '''', Throws] new_client \<and>
   written (send True ''x'' (run (\<lambda>k. True) [Returns '''', Throws] new_client)) = [] \<and>
   written (send True ''x'' (run (\<lambda>k. True) [Returns ''''] new_client)) = [''x'']"
proof -
  have r: "run (\<lambda>k. True) [Returns '''', Throws] new_client =
     \<lparr>m_ws_is_open = False, status = Connecting, calls_done = 3, sleeps = [3000],
      on_message_calls = [], written = [], send_errors = 0\<rparr>"
    by (simp add: run.simps read_loop.simps after_try.simps call_done_def new_client_def
          RECONNECT_INTERVAL_MS_def)
  have r2: "run (\<lambda>k. True) [Returns ''''] new_client =
     \<lparr>m_ws_is_open = True, status = Connected, calls_done = 1, sleeps = [],
      on_message_calls = [], written = [], send_errors = 0\<rparr>"
    by (simp add: run.simps read_loop.simps after_try.simps call_done_def new_client_def)
  have s: "status (run (\<lambda>k. True) [Returns '''', Throws] new_client) = Connecting"
    by (simp add: r)
  from send_when_not_connected [of new_client True "''x''" "\<lambda>k. True" "[Returns '''', Throws]"] s
  have "send True ''x'' (run (\<lambda>k. True) [Returns '''', Throws] new_client) =
     run (\<lambda>k. True) [Returns '''', Throws] new_client" by blast
  with s show ?thesis by (simp add: r r2 send_def)
qed

text \<open>
  Claim C5, as amended. In every reachable state of the hub the subscribers of the
  trades topic are the connections open on the public route. A message arriving on an
  open ingress connection is appended, unchanged, to what has been sent to each of them
  whose outbound buffer is not saturated, and to no other socket; a saturated
  subscriber is sent nothing and, under the disconnecting policy, is closed, the others
  being unaffected. A subscriber that disconnects before the publish is sent nothing by
  it; a connection that opens after the publish starts with nothing sent to it.
\<close>

theorem fan_out:
  assumes "h = hub_run evs (hub0 policy)" and "p \<in> internal_sockets h"
  shows "subscribers h BROADCAST_TOPIC = public_sockets h \<and>
         (\<forall>s. sent_to (hub_step (InternalMessage p m) h) s =
              (if s \<in> subscribers h BROADCAST_TOPIC \<and> s \<notin> over_limit h
               then sent_to h s @ [m] else sent_to h s)) \<and>
         public_sockets (hub_step (InternalMessage p m) h) =
              (if policy then public_sockets h - over_limit h else public_sockets h) \<and>
         (\<forall>s. sent_to (hub_step (InternalMessage p m) (hub_step (PublicClose s) h)) s = sent_to h s) \<and>
         (\<forall>s. \<not> in_use s h \<longrightarrow>
              sent_to (hub_step (PublicConnect s) (hub_step (InternalMessage p m) h)) s = [])"
proof -
  have inv: "hub_inv h" using assms(1) by (simp add: hub_inv_run hub_inv_hub0)
  then have subs: "subscribers h BROADCAST_TOPIC = public_sockets h"
    and disj: "public_sockets h \<inter> internal_sockets h = {}"
    by (simp_all add: hub_inv_def)
  have pol: "closeOnBackpressureLimit h = policy"
    using assms(1) by (simp add: policy_reachable)
  have pnp: "p \<notin> public_sockets h" using disj assms(2) by blast
  have a: "sent_to (hub_step (InternalMessage p m) h) s =
              (if s \<in> subscribers h BROADCAST_TOPIC \<and> s \<notin> over_limit h
               then sent_to h s @ [m] else sent_to h s)" for s
    using publish_reaches_subscribers [OF inv assms(2)] subs by simp
  have "public_sockets h - (public_sockets h - {p}) \<inter> over_limit h = public_sockets h - over_limit h"
    using pnp by blast
  then have b: "public_sockets (hub_step (InternalMessage p m) h) =
              (if policy then public_sockets h - over_limit h else public_sockets h)"
    using assms(2) pol subs by (simp add: publish_public_sockets)
  have c: "sent_to (hub_step (InternalMessage p m) (hub_step (PublicClose s) h)) s = sent_to h s" for s
  proof -
    let ?h' = "hub_step (PublicClose s) h"
    have inv': "hub_inv ?h'" using inv by (rule hub_inv_step)
    have p': "p \<in> internal_sockets ?h'"
      using assms(2) pnp by (auto simp: close_sockets_def)
    have gone: "s \<notin> public_sockets ?h'" by (simp add: close_sockets_def)
    have same: "sent_to ?h' s = sent_to h s" by (simp add: close_sockets_def)
    from publish_reaches_subscribers [OF inv' p', of m s] gone same show ?thesis by simp
  qed
  have d: "sent_to (hub_step (PublicConnect s) (hub_step (InternalMessage p m) h)) s = []"
    if "\<not> in_use s h" for s
  proof -
    have "\<not> in_use s (hub_step (InternalMessage p m) h)"
      using that by (auto simp: in_use_def publish_def close_sockets_def Let_def)
    then show ?thesis by (simp add: subscribe_def)
  qed
  from subs a b c d show ?thesis by blast
qed

theorem fan_out_witness:
  "1 \<in> internal_sockets (hub_run [PublicConnect 3, PublicConnect 4, PublicConnect 5, PublicClose 4,
                                   InternalConnect 1, BufferFull 5] (hub0 False)) \<and>
   sent_to (hub_step (InternalMessage 1 ''x'')
     (hub_run [PublicConnect 3, PublicConnect 4, PublicConnect 5, PublicClose 4,
               InternalConnect 1, BufferFull 5] (hub0 False))) 3 = [''x''] \<and>
   sent_to (hub_step (InternalMessage 1 ''x'')
     (hub_run [PublicConnect 3, PublicConnect 4, PublicConnect 5, PublicClose 4,
               InternalConnect 1, BufferFull 5] (hub0 False))) 5 = [] \<and>
   sent_to (hub_step (InternalMessage 1 ''x'')
     (hub_run [PublicConnect 3, PublicConnect 4, PublicConnect 5, PublicClose 4,
               InternalConnect 1, BufferFull 5] (hub0 False))) 4 = [] \<and>
   \<not> in_use 6 (hub_run [PublicConnect 3, PublicConnect 4, PublicConnect 5, PublicClose 4,
                        InternalConnect 1, BufferFull 5] (hub0 False)) \<and>
   sent_to (hub_step (PublicConnect 6) (hub_step (InternalMessage 1 ''x'')
     (hub_run [PublicConnect 3, PublicConnect 4, PublicConnect 5, PublicClose 4,
               InternalConnect 1, BufferFull 5] (hub0 False)))) 6 = []"
proof -
  define h where "h = hub_run [PublicConnect 3, PublicConnect 4, PublicConnect 5, PublicClose 4,
                     InternalConnect 1, BufferFull 5] (hub0 False)"
  have m: "1 \<in> internal_sockets h" unfolding h_def by (simp add: hub_eval)
  have p: "3 \<in> public_sockets h" "5 \<in> public_sockets h" "4 \<notin> public_sockets h"
    unfolding h_def by (simp_all add: hub_eval)
  have o: "3 \<notin> over_limit h" "5 \<in> over_limit h"
    unfolding h_def by (simp_all add: hub_eval)
  have s: "sent_to h 3 = []" "sent_to h 5 = []" "sent_to h 4 = []"
    unfolding h_def by (simp_all add: hub_eval)
  have u: "\<not> in_use 6 h" unfolding h_def by (simp add: hub_eval)
  note t = fan_out [OF h_def m, of "''x''"]
  note subs = t [THEN conjunct1]
  note pub = t [THEN conjunct2, THEN conjunct1, rule_format]
  note late = t [THEN conjunct2, THEN conjunct2, THEN conjunct2, THEN conjunct2, rule_format, OF u]
  have r3: "sent_to (hub_step (InternalMessage 1 ''x'') h) 3 = [''x'']"
    unfolding pub [of 3] subs using p o s by simp
  have r5: "sent_to (hub_step (InternalMessage 1 ''x'') h) 5 = []"
    unfolding pub [of 5] subs using p o s by simp
  have r4: "sent_to (hub_step (InternalMessage 1 ''x'') h) 4 = []"
    unfolding pub [of 4] subs using p o s by simp
  show ?thesis
    apply (intro conjI)
         apply (rule m [unfolded h_def])
        apply (rule r3 [unfolded h_def])
       apply (rule r5 [unfolded h_def])
      apply (rule r4 [unfolded h_def])
     apply (rule u [unfolded h_def])
    apply (rule late [unfolded h_def])
    done
qed

theorem fan_out_counterexample:
  "4 \<in> subscribers (hub_run [PublicConnect 3, PublicConnect 4, InternalConnect 1, BufferFull 4] (hub0 False))
         BROADCAST_TOPIC \<and>
   sent_to (hub_run [PublicConnect 3, PublicConnect 4, InternalConnect 1, BufferFull 4,
                     InternalMessage 1 ''x''] (hub0 False)) 3 = [''x''] \<and>
   sent_to (hub_run [PublicConnect 3, PublicConnect 4, InternalConnect 1, BufferFull 4,
                     InternalMessage 1 ''x''] (hub0 False)) 4 = [] \<and>
   4 \<in> subscribers (hub_run [PublicConnect 3, PublicConnect 4, InternalConnect 1, BufferFull 4] (hub0 True))
         BROADCAST_TOPIC \<and>
   sent_to (hub_run [PublicConnect 3, PublicConnect 4, InternalConnect 1, BufferFull 4,
                     InternalMessage 1 ''x''] (hub0 True)) 3 = [''x''] \<and>
   sent_to (hub_run [PublicConnect 3, PublicConnect 4, InternalConnect 1, BufferFull 4,
                     InternalMessage 1 ''x''] (hub0 True)) 4 = []"
  by (simp add: hub_eval)

text \<open>
  Claim C9, as amended. The ingress route accepts a new connection in every reachable
  state, however many ingress connections are already open, and a message arriving on
  any open ingress connection is published to the trades topic, reaching its
  subscribers as the library's publish delivers it. (The claim as stated, at most one
  publisher connection, fails: the route has no limit.)
\<close>

theorem ingress_accepts_many:
  assumes "h = hub_run evs (hub0 policy)" and "\<not> in_use ws h"
  shows "internal_sockets (hub_step (InternalConnect ws) h) = insert ws (internal_sockets h) \<and>
         (\<forall>p m. p \<in> internal_sockets (hub_step (InternalConnect ws) h) \<longrightarrow>
            hub_step (InternalMessage p m) (hub_step (InternalConnect ws) h) =
              publish p BROADCAST_TOPIC m (hub_step (InternalConnect ws) h)) \<and>
         (\<forall>p m s. p \<in> internal_sockets (hub_step (InternalConnect ws) h) \<longrightarrow>
            sent_to (hub_step (InternalMessage p m) (hub_step (InternalConnect ws) h)) s =
              (if s \<in> public_sockets h \<and> s \<notin> over_limit h then sent_to h s @ [m]
               else sent_to (hub_step (InternalConnect ws) h) s))"
proof -
  let ?h' = "hub_step (InternalConnect ws) h"
  have "hub_inv h" using assms(1) by (simp add: hub_inv_run hub_inv_hub0)
  then have inv: "hub_inv ?h'" by (rule hub_inv_step)
  have a: "internal_sockets ?h' = insert ws (internal_sockets h)"
    using assms(2) by simp
  have pub: "public_sockets ?h' = public_sockets h" by simp
  have ov: "over_limit ?h' = over_limit h" by simp
  have old: "s \<in> public_sockets h \<Longrightarrow> sent_to ?h' s = sent_to h s" for s
    using assms(2) by (auto simp: in_use_def)
  have b: "hub_step (InternalMessage p m) ?h' = publish p BROADCAST_TOPIC m ?h'"
    if "p \<in> internal_sockets ?h'" for p m
    using that by (simp only: hub_step.simps if_True)
  have c: "sent_to (hub_step (InternalMessage p m) ?h') s =
              (if s \<in> public_sockets h \<and> s \<notin> over_limit h then sent_to h s @ [m] else sent_to ?h' s)"
    if "p \<in> internal_sockets ?h'" for p m s
    using publish_reaches_subscribers [OF inv that, of m s] old [of s] pub ov by simp
  from a b c show ?thesis by blast
qed

theorem ingress_accepts_many_witness:
  "\<not> in_use 2 (hub_run [PublicConnect 3, InternalConnect 1] (hub0 False)) \<and>
   internal_sockets (hub_step (InternalConnect 2) (hub_run [PublicConnect 3, InternalConnect 1] (hub0 False))) = {1, 2} \<and>
   sent_to (hub_step (InternalMessage 2 ''b'')
      (hub_step (InternalConnect 2) (hub_run [PublicConnect 3, InternalConnect 1] (hub0 False)))) 3 = [''b'']"
proof -
  let ?h = "hub_run [PublicConnect 3, InternalConnect 1] (hub0 False)"
  have i: "internal_sockets ?h = {1}" by (simp add: hub_eval)
  have p: "3 \<in> public_sockets ?h" by (simp add: hub_eval)
  have o: "3 \<notin> over_limit ?h" by (simp add: hub_eval)
  have s: "sent_to ?h 3 = []" by (simp add: hub_eval)
  have u: "\<not> in_use 2 ?h" by (simp add: hub_eval)
  note t = ingress_accepts_many [OF refl u]
  from t have a: "internal_sockets (hub_step (InternalConnect 2) ?h) = {1, 2}"
    unfolding i by auto
  from t a have "sent_to (hub_step (InternalMessage 2 ''b'') (hub_step (InternalConnect 2) ?h)) 3 =
      (if 3 \<in> public_sockets ?h \<and> 3 \<notin> over_limit ?h then sent_to ?h 3 @ [''b'']
       else sent_to (hub_step (InternalConnect 2) ?h) 3)"
    by blast
  then have "sent_to (hub_step (InternalMessage 2 ''b'') (hub_step (InternalConnect 2) ?h)) 3 = [''b'']"
    using p o s by simp
  with u a show ?thesis by blast
qed

theorem single_publisher_counterexample:
  "internal_sockets (hub_run [InternalConnect 1, InternalConnect 2] (hub0 False)) = {1, 2} \<and>
   card (internal_sockets (hub_run [InternalConnect 1, InternalConnect 2] (hub0 False))) = 2 \<and>
   sent_to (hub_run [PublicConnect 3, InternalConnect 1, InternalConnect 2,
                     InternalMessage 1 ''a'', InternalMessage 2 ''b''] (hub0 False)) 3 = [''a'', ''b''] \<and>
   internal_sockets (hub_run [InternalConnect 1, InternalConnect 2] (hub0 True)) = {1, 2} \<and>
   sent_to (hub_run [PublicConnect 3, InternalConnect 1, InternalConnect 2,
                     InternalMessage 1 ''a'', InternalMessage 2 ''b''] (hub0 True)) 3 = [''a'', ''b'']"
proof -
  have a: "internal_sockets (hub_run [InternalConnect 1, InternalConnect 2] (hub0 pol)) = {1, 2}" for pol
    by (auto simp: hub0_def in_use_def)
  have b: "sent_to (hub_run [PublicConnect 3, InternalConnect 1, InternalConnect 2,
                     InternalMessage 1 ''a'', InternalMessage 2 ''b''] (hub0 pol)) 3 = [''a'', ''b'']" for pol
    by (simp add: hub_eval)
  from a b show ?thesis by simp
qed

end
